theory Spec2Isabelle
  imports Complex_Main "HOL-Library.AList"
begin

section \<open>The log server of saltfactories (plugins/log\_server.py)\<close>

text \<open>
  The log server owns a worker thread (\<open>LogServer.process_logs\<close>) that pulls msgpack
  messages from a ZMQ PULL socket and hands every decoded log record to the logging
  machinery of the test process, and two controller methods, \<open>start\<close> and \<open>stop\<close>.

  The worker is embedded as a step function over the observations it makes in one pass
  of its \<open>while True\<close> loop; the controller methods are embedded as functions of what
  their blocking calls observe. Time is measured in seconds.
\<close>

subsection \<open>Python values\<close>

text \<open>
  What \<open>msgpack.loads\<close> can return: \<open>None\<close>, booleans, integers, text, byte strings,
  lists and dicts. Keys of a dict are text, byte strings or integers. A dict is an
  association list in insertion order; \<open>d[k] = v\<close> is \<open>AList.update k v d\<close> (the value is
  replaced in place when the key is there, the entry is appended otherwise).
  Text and byte strings are both character lists, told apart by their constructors.
\<close>

datatype pykey = KStr string | KBytes string | KInt int

datatype pyval =
    PNone
  | PBool bool
  | PInt int
  | PStr string
  | PBytes string
  | PList "pyval list"
  | PDict "(pykey \<times> pyval) list"

type_synonym record_dict = "(pykey \<times> pyval) list"

text \<open>
  Exceptions, by the classes the handlers of \<open>process_logs\<close> tell apart:
  \<open>EOFError\<close>, \<open>KeyboardInterrupt\<close> and \<open>SystemExit\<close> (first handler),
  \<open>zmq.ZMQError\<close> (the handler around \<open>bind\<close>; a subclass of \<open>Exception\<close>),
  any other subclass of \<open>Exception\<close>, and any other \<open>BaseException\<close>.
\<close>

datatype exc =
    EOFError
  | KeyboardInterrupt
  | SystemExit
  | ZMQError
  | Exception string
  | BaseException string

text \<open>Calls on the module logger \<open>log\<close>; \<open>log.exception\<close> logs at error severity.\<close>

datatype log_call = Debug string | Info string | Warning string | ErrorExc string

subsection \<open>Normalising a record dumped by Python 2 (lines 172 to 185)\<close>

text \<open>
  \<open>bytes.decode("utf-8")\<close> is the parameter \<open>dec\<close>; \<open>None\<close> is \<open>UnicodeDecodeError\<close>.
  \<open>norm_entry\<close> is one pass of the \<open>for key, value in record_dict.copy().items()\<close>
  loop on the dict \<open>rd\<close> being mutated; the pair carries \<open>skip_update\<close>.
\<close>

definition decode_value :: "(string \<Rightarrow> string option) \<Rightarrow> pyval \<Rightarrow> exc + (pyval \<times> bool)" where
  "decode_value dec v =
     (case v of
        PBytes b \<Rightarrow> (case dec b of
                      None \<Rightarrow> Inl (Exception ''UnicodeDecodeError'')
                    | Some s \<Rightarrow> Inr (PStr s, False))
      | _ \<Rightarrow> Inr (v, True))"

definition decode_key :: "(string \<Rightarrow> string option) \<Rightarrow> pykey \<Rightarrow> bool \<Rightarrow> exc + (pykey \<times> bool)" where
  "decode_key dec k skip_update =
     (case k of
        KBytes b \<Rightarrow> (case dec b of
                      None \<Rightarrow> Inl (Exception ''UnicodeDecodeError'')
                    | Some s \<Rightarrow> Inr (KStr s, False))
      | _ \<Rightarrow> Inr (k, skip_update))"

definition norm_entry ::
  "(string \<Rightarrow> string option) \<Rightarrow> record_dict \<Rightarrow> pykey \<times> pyval \<Rightarrow> exc + record_dict" where
  "norm_entry dec rd kv =
     (case decode_value dec (snd kv) of
        Inl e \<Rightarrow> Inl e
      | Inr (v, skip1) \<Rightarrow>
          (case decode_key dec (fst kv) skip1 of
             Inl e \<Rightarrow> Inl e
           | Inr (k, skip_update) \<Rightarrow>
               Inr (if skip_update then rd else AList.update k v rd)))"

fun norm_items ::
  "(string \<Rightarrow> string option) \<Rightarrow> record_dict \<Rightarrow> (pykey \<times> pyval) list \<Rightarrow> exc + record_dict" where
  "norm_items dec rd [] = Inr rd"
| "norm_items dec rd (kv # kvs) =
     (case norm_entry dec rd kv of
        Inl e \<Rightarrow> Inl e
      | Inr rd' \<Rightarrow> norm_items dec rd' kvs)"

text \<open>
  \<open>try: record_dict["message"] except KeyError: ...\<close>: the pass runs over a copy of the
  items when the text key \<open>message\<close> is missing.
\<close>

definition normalise :: "(string \<Rightarrow> string option) \<Rightarrow> record_dict \<Rightarrow> exc + record_dict" where
  "normalise dec rd =
     (case map_of rd (KStr ''message'') of
        Some _ \<Rightarrow> Inr rd
      | None \<Rightarrow> norm_items dec rd rd)"

subsection \<open>The worker: one pass of the receive loop (lines 145 to 199)\<close>

text \<open>
  What one pass of the loop observes: the running flag (line 146), the clock where it
  is read (lines 154 and 156), and what \<open>poller.poll(1000)\<close> and \<open>puller.recv()\<close> give:
  nothing within the poll timeout, an exception, or a message together with the
  exception that \<open>makeLogRecord\<close>, \<open>getLogger\<close> and \<open>logger.handle\<close> raise when the
  record of that message is forwarded (\<open>None\<close>: the sink takes it).
\<close>

datatype 'm arrival = Idle | PollError exc | Msg 'm "exc option"

record 'm tick =
  is_set :: bool
  clock_entry :: real
  clock_check :: real
  arrival :: "'m arrival"

datatype phase = Looping | Exited | Crashed exc

record worker =
  running_event :: bool
  sentinel_event :: bool
  exit_timeout :: "real option"
  forwarded :: "record_dict list"
  logged :: "log_call list"
  phase :: phase
  puller_open :: bool

definition exit_timeout_seconds :: real where
  "exit_timeout_seconds = 5"

text \<open>
  Leaving the loop by \<open>break\<close>: the \<open>finally\<close> clause closes the socket and the thread
  logs that it terminated. An exception that no handler takes leaves through
  \<open>finally\<close> as well and ends the thread.
\<close>

definition exit_loop :: "worker \<Rightarrow> worker" where
  "exit_loop st =
     st\<lparr>phase := Exited, puller_open := False,
        logged := logged st @ [Debug ''Process log thread terminated'']\<rparr>"

definition crash :: "exc \<Rightarrow> worker \<Rightarrow> worker" where
  "crash e st = st\<lparr>phase := Crashed e, puller_open := False\<rparr>"

text \<open>The two \<open>except\<close> clauses of the loop body (lines 191 to 199).\<close>

definition handle_exc :: "exc \<Rightarrow> worker \<Rightarrow> worker" where
  "handle_exc e st =
     (case e of
        EOFError \<Rightarrow> exit_loop st
      | KeyboardInterrupt \<Rightarrow> exit_loop st
      | SystemExit \<Rightarrow> exit_loop st
      | BaseException s \<Rightarrow> crash e st
      | _ \<Rightarrow> st\<lparr>logged := logged st @
                 [Warning ''An exception occurred in the processing queue thread'']\<rparr>)"

text \<open>
  The \<open>try\<close> block (lines 163 to 190) up to its effect on the worker: \<open>continue\<close> on an
  empty poll, the sentinel, or a record to hand to the sink; or the exception raised.
  Subscripting a value that is not a dict with \<open>"message"\<close> raises \<open>TypeError\<close>.
\<close>

datatype outcome = Continue | Sentinel | Forward record_dict

definition attempt ::
  "('m \<Rightarrow> exc + pyval) \<Rightarrow> (string \<Rightarrow> string option) \<Rightarrow> 'm arrival \<Rightarrow> exc + outcome" where
  "attempt loads dec a =
     (case a of
        Idle \<Rightarrow> Inr Continue
      | PollError e \<Rightarrow> Inl e
      | Msg m sink \<Rightarrow>
          (case loads m of
             Inl e \<Rightarrow> Inl e
           | Inr PNone \<Rightarrow> Inr Sentinel
           | Inr (PDict rd) \<Rightarrow>
               (case normalise dec rd of
                  Inl e \<Rightarrow> Inl e
                | Inr rd' \<Rightarrow> (case sink of Some e \<Rightarrow> Inl e | None \<Rightarrow> Inr (Forward rd')))
           | Inr _ \<Rightarrow> Inl (Exception ''TypeError'')))"

definition body ::
  "('m \<Rightarrow> exc + pyval) \<Rightarrow> (string \<Rightarrow> string option) \<Rightarrow> worker \<Rightarrow> 'm arrival \<Rightarrow> worker" where
  "body loads dec st a =
     (case attempt loads dec a of
        Inl e \<Rightarrow> handle_exc e st
      | Inr Continue \<Rightarrow> st
      | Inr Sentinel \<Rightarrow>
          exit_loop (st\<lparr>sentinel_event := True,
                        logged := logged st @ [Info ''Received the sentinel to shutdown'']\<rparr>)
      | Inr (Forward rd) \<Rightarrow> st\<lparr>forwarded := forwarded st @ [rd]\<rparr>)"

text \<open>Lines 146 to 154: the first pass that sees the flag cleared fixes the deadline.\<close>

definition arm :: "worker \<Rightarrow> 'm tick \<Rightarrow> worker" where
  "arm st tk =
     (case exit_timeout st of
        None \<Rightarrow> st\<lparr>exit_timeout := Some (clock_entry tk + exit_timeout_seconds),
                   logged := logged st @
                     [Debug ''Waiting 5 seconds to process any remaning log messages before exiting...'']\<rparr>
      | Some d \<Rightarrow> st)"

text \<open>Line 156: \<open>time.time() >= exit_timeout\<close>, read after \<open>arm\<close>.\<close>

definition expired :: "worker \<Rightarrow> 'm tick \<Rightarrow> bool" where
  "expired st tk = (case exit_timeout st of None \<Rightarrow> False | Some d \<Rightarrow> d \<le> clock_check tk)"

definition step ::
  "('m \<Rightarrow> exc + pyval) \<Rightarrow> (string \<Rightarrow> string option) \<Rightarrow> worker \<Rightarrow> 'm tick \<Rightarrow> worker" where
  "step loads dec st tk =
     (if phase st \<noteq> Looping then st
      else if is_set tk then body loads dec st (arrival tk)
      else if expired (arm st tk) tk then
        exit_loop ((arm st tk)\<lparr>logged := logged (arm st tk) @
          [Debug ''Unable to process remaining log messages in time. Exiting anyway.'']\<rparr>)
      else body loads dec (arm st tk) (arrival tk))"

fun run ::
  "('m \<Rightarrow> exc + pyval) \<Rightarrow> (string \<Rightarrow> string option) \<Rightarrow> worker \<Rightarrow> 'm tick list \<Rightarrow> worker" where
  "run loads dec st [] = st"
| "run loads dec st (tk # tks) = run loads dec (step loads dec st tk) tks"

text \<open>
  The thread from its start (lines 126 to 203): the events are fresh (\<open>start\<close> has just
  made them), \<open>bind\<close> raises or not, and on success the worker sets the running event
  and loops. A \<open>ZMQError\<close> of \<open>bind\<close> is logged and the thread returns; any other
  exception of \<open>bind\<close> ends the thread.
\<close>

definition fresh :: worker where
  "fresh = \<lparr>running_event = False, sentinel_event = False, exit_timeout = None,
            forwarded = [], logged = [], phase = Looping, puller_open = False\<rparr>"

definition bind_puller :: "exc option \<Rightarrow> worker" where
  "bind_puller bind_raises =
     (case bind_raises of
        Some ZMQError \<Rightarrow>
          fresh\<lparr>logged := [ErrorExc ''Unable to bind to puller''], phase := Exited\<rparr>
      | Some e \<Rightarrow> fresh\<lparr>phase := Crashed e\<rparr>
      | None \<Rightarrow> fresh\<lparr>running_event := True, puller_open := True\<rparr>)"

definition process_logs ::
  "('m \<Rightarrow> exc + pyval) \<Rightarrow> (string \<Rightarrow> string option) \<Rightarrow> exc option \<Rightarrow> 'm tick list \<Rightarrow> worker" where
  "process_logs loads dec bind_raises tks = run loads dec (bind_puller bind_raises) tks"

subsection \<open>The passes in real time (lines 154, 156 and 163)\<close>

text \<open>
  \<open>poller.poll(timeout)\<close>, the timeout in milliseconds, on a socket where something
  is ready \<open>d\<close> seconds from now (\<open>None\<close>: never): whether it returns something, and
  the seconds it blocks.
\<close>

definition poll :: "real option \<Rightarrow> real \<Rightarrow> bool \<times> real" where
  "poll ready timeout_ms =
     (case ready of
        None \<Rightarrow> (False, timeout_ms / 1000)
      | Some d \<Rightarrow> if d \<le> timeout_ms / 1000 then (True, max 0 d) else (False, timeout_ms / 1000))"

text \<open>
  One pass of the loop in real time: the running flag it sees, when the poller has
  something (from the call of \<open>poll\<close>), what \<open>recv\<close> and the sink then give, and the
  time the pass takes after \<open>poll\<close> has returned something (\<open>recv\<close>, \<open>loads\<close>, the
  normalisation and the sink; the code puts no bound on it).
\<close>

record 'm pass =
  flag :: bool
  ready_after :: "real option"
  received :: "'m arrival"
  busy :: real

text \<open>Line 163: \<open>poller.poll(1000)\<close>.\<close>

definition polled :: "'m pass \<Rightarrow> bool \<times> real" where
  "polled p = poll (ready_after p) 1000"

text \<open>
  What a pass that begins at time \<open>t\<close> observes. Only \<open>poll\<close> and the handling of what
  it returned take time: both readings of the clock (lines 154 and 156) give the time
  at which the pass begins, and an empty poll is followed by \<open>continue\<close> at once.
\<close>

definition observe :: "real \<Rightarrow> 'm pass \<Rightarrow> 'm tick" where
  "observe t p =
     \<lparr>is_set = flag p, clock_entry = t, clock_check = t,
      arrival = (if fst (polled p) then received p else Idle)\<rparr>"

definition handling :: "'m pass \<Rightarrow> real" where
  "handling p = (if fst (polled p) then max 0 (busy p) else 0)"

definition elapsed :: "'m pass \<Rightarrow> real" where
  "elapsed p = snd (polled p) + handling p"

text \<open>The time after some passes, and what the passes observe one after the other.\<close>

fun clock_after :: "real \<Rightarrow> 'm pass list \<Rightarrow> real" where
  "clock_after t [] = t"
| "clock_after t (p # ps) = clock_after (t + elapsed p) ps"

fun timeline :: "real \<Rightarrow> 'm pass list \<Rightarrow> 'm tick list" where
  "timeline t [] = []"
| "timeline t (p # ps) = observe t p # timeline (t + elapsed p) ps"

subsection \<open>The blocking calls of the controller\<close>

text \<open>
  \<open>threading.Event.wait(timeout)\<close> on an event that another thread sets \<open>d\<close> seconds
  from now (\<open>None\<close>: never): the flag it returns and the time it blocks.
\<close>

definition event_wait :: "real option \<Rightarrow> real \<Rightarrow> bool \<times> real" where
  "event_wait set_after timeout =
     (case set_after of
        None \<Rightarrow> (False, timeout)
      | Some d \<Rightarrow> if d \<le> timeout then (True, max 0 d) else (False, timeout))"

text \<open>
  \<open>threading.Thread.join(timeout)\<close> on a thread that ends \<open>d\<close> seconds from now
  (\<open>None\<close>: never): what \<open>is_alive()\<close> says afterwards and the time it blocks.
\<close>

definition thread_join :: "real option \<Rightarrow> real \<Rightarrow> bool \<times> real" where
  "thread_join ends_after timeout =
     (case ends_after of
        None \<Rightarrow> (True, timeout)
      | Some d \<Rightarrow> if d \<le> timeout then (False, max 0 d) else (True, timeout))"

text \<open>
  \<open>zmq.Context.term()\<close> after the only socket was closed with a linger period: it
  blocks until the pending message has left the sender (\<open>d\<close> seconds from now,
  \<open>None\<close>: never) or the linger period is over.
\<close>

definition context_term :: "real option \<Rightarrow> real \<Rightarrow> real" where
  "context_term flushed_after linger =
     (case flushed_after of
        None \<Rightarrow> linger
      | Some d \<Rightarrow> min linger (max 0 d))"

subsection \<open>start (lines 70 to 83)\<close>

text \<open>
  \<open>start\<close> makes the two events, starts the thread and waits five seconds for the
  running event, which only the thread sets, once \<open>bind\<close> has returned. Its arguments
  are what \<open>bind\<close> does in the thread and how long after its start the thread gets
  past it.
\<close>

record started =
  start_raises :: "exc option"
  start_running_event :: bool
  start_logged :: "log_call list"
  start_blocked :: real

definition start :: "exc option \<Rightarrow> real \<Rightarrow> started" where
  "start bind_raises bound_after =
     (case event_wait
             (if running_event (bind_puller bind_raises) then Some bound_after else None) 5 of
        (True, w) \<Rightarrow>
          \<lparr>start_raises = None, start_running_event = True,
           start_logged = [Info ''starting...'', Info ''started''], start_blocked = w\<rparr>
      | (False, w) \<Rightarrow>
          \<lparr>start_raises = Some (Exception ''RuntimeError: Failed to start the log server''),
           start_running_event = False,
           start_logged = [Info ''starting...''], start_blocked = w\<rparr>)"

subsection \<open>stop (lines 85 to 120)\<close>

text \<open>
  What \<open>stop\<close> does, in order, with the timeout of each call that takes one
  (\<open>CloseSender\<close> carries the linger period in milliseconds). \<open>stop\<close> has no handler
  and raises nothing itself; connecting and sending on the fresh PUSH socket queue the
  sentinel and are taken to return, so the \<open>finally\<close> clause runs after the wait.
\<close>

datatype action =
    Connect
  | SendSentinel
  | WaitSentinel real
  | CloseSender real
  | TermContext
  | ClearRunning
  | Join real
  | Log log_call

text \<open>
  What \<open>stop\<close> observes: when the worker sets the sentinel event (from the send), when
  the sentinel has left the sender (from the close), when the worker thread ends (from
  the first join).
\<close>

record stop_env =
  acked_after :: "real option"
  flushed_after :: "real option"
  ended_after :: "real option"

record stopped =
  actions :: "action list"
  stop_blocked :: real
  stop_running_event :: bool
  thread_alive :: bool

definition second_join :: "stop_env \<Rightarrow> bool \<times> real" where
  "second_join env =
     (if fst (thread_join (ended_after env) 7)
      then thread_join (map_option (\<lambda>d. d - 7) (ended_after env)) 5
      else (False, 0))"

definition stop :: "stop_env \<Rightarrow> stopped" where
  "stop env =
     \<lparr>actions =
        [Log (Info ''stopping...''), Connect, SendSentinel,
         Log (Debug ''Sent sentinel to trigger log server shutdown''), WaitSentinel 5]
        @ (if fst (event_wait (acked_after env) 5) then []
           else [Log (Warning
             ''Failed to wait for the reception of the stop sentinel message. Stopping anyway.'')])
        @ [CloseSender 1000, TermContext, ClearRunning,
           Log (Info ''Joining the logging server process thread''), Join 7]
        @ (if fst (thread_join (ended_after env) 7)
           then [Log (Warning
                   ''The logging server thread is still running. Waiting a little longer...''),
                 Join 5]
                @ (if fst (second_join env)
                   then [Log (Warning ''The logging server thread is still running...'')]
                   else [Log (Debug ''Stopped'')])
           else [Log (Debug ''Stopped'')]),
      stop_blocked =
        snd (event_wait (acked_after env) 5)
        + context_term (flushed_after env) (1000 / 1000)
        + snd (thread_join (ended_after env) 7)
        + snd (second_join env),
      stop_running_event = False,
      thread_alive = fst (second_join env)\<rparr>"

text \<open>The calls of \<open>stop\<close> without its log lines.\<close>

definition calls :: "action list \<Rightarrow> action list" where
  "calls as = filter (\<lambda>a. case a of Log l \<Rightarrow> False | _ \<Rightarrow> True) as"

subsection \<open>Concrete parameters for evaluation\<close>

text \<open>
  UTF-8 decoding on ASCII bytes, where it is the identity; byte strings with a byte
  above 127 are not used at the concrete inputs below and are rejected here.
\<close>

definition ascii_decode :: "string \<Rightarrow> string option" where
  "ascii_decode bs = (if list_all (\<lambda>c. of_char c < (128::nat)) bs then Some bs else None)"

subsection \<open>Notions used to state the properties\<close>

text \<open>The record that a pass of the loop hands to the sink, if it hands one.\<close>

definition delivered ::
  "('m \<Rightarrow> exc + pyval) \<Rightarrow> (string \<Rightarrow> string option) \<Rightarrow> 'm tick \<Rightarrow> record_dict option" where
  "delivered loads dec tk =
     (case attempt loads dec (arrival tk) of
        Inr (Forward rd) \<Rightarrow> Some rd
      | _ \<Rightarrow> None)"

text \<open>
  The text-only record with the payload of a legacy record: every key and every
  value that is a byte string is replaced by the text it encodes, entry by entry.
  There is none when a byte string does not decode.
\<close>

definition text_key :: "(string \<Rightarrow> string option) \<Rightarrow> pykey \<Rightarrow> pykey option" where
  "text_key dec k = (case k of KBytes b \<Rightarrow> map_option KStr (dec b) | _ \<Rightarrow> Some k)"

definition text_value :: "(string \<Rightarrow> string option) \<Rightarrow> pyval \<Rightarrow> pyval option" where
  "text_value dec v = (case v of PBytes b \<Rightarrow> map_option PStr (dec b) | _ \<Rightarrow> Some v)"

fun text_only :: "(string \<Rightarrow> string option) \<Rightarrow> record_dict \<Rightarrow> record_dict option" where
  "text_only dec [] = Some []"
| "text_only dec (kv # kvs) =
     (case (text_key dec (fst kv), text_value dec (snd kv), text_only dec kvs) of
        (Some k, Some v, Some r) \<Rightarrow> Some ((k, v) # r)
      | _ \<Rightarrow> None)"

definition bytes_key :: "pykey \<Rightarrow> bool" where
  "bytes_key k = (case k of KBytes b \<Rightarrow> True | _ \<Rightarrow> False)"

section \<open>Properties\<close>

subsection \<open>Basic facts about the loop\<close>

lemma run_not_looping: "phase st \<noteq> Looping \<Longrightarrow> run loads dec st tks = st"
  by (induction tks) (simp_all add: step_def)

lemma exit_loop_fields [simp]:
  "phase (exit_loop st) = Exited" "sentinel_event (exit_loop st) = sentinel_event st"
  "forwarded (exit_loop st) = forwarded st" "exit_timeout (exit_loop st) = exit_timeout st"
  "running_event (exit_loop st) = running_event st" "puller_open (exit_loop st) = False"
  "logged (exit_loop st) = logged st @ [Debug ''Process log thread terminated'']"
  by (simp_all add: exit_loop_def)

lemma arm_fields [simp]:
  "phase (arm st tk) = phase st" "sentinel_event (arm st tk) = sentinel_event st"
  "forwarded (arm st tk) = forwarded st" "running_event (arm st tk) = running_event st"
  "puller_open (arm st tk) = puller_open st"
  by (simp_all add: arm_def split: option.splits)

subsection \<open>The sentinel\<close>

text \<open>
  Claim C2. When a pass of the loop gets as far as receiving a message (the worker is
  in its loop and the drain deadline has not ended it) and the message decodes to
  \<open>None\<close>, the worker sets the sentinel event and leaves the loop: it ends in the
  terminal state, nothing is handed to the sink for this message, the only log lines
  are the sentinel's and the thread's last one (no warning from treating \<open>None\<close> as a
  record), and no later pass happens.
\<close>

theorem sentinel_ends_loop:
  assumes "phase st = Looping"
    and "is_set tk \<or> \<not> expired (arm st tk) tk"
    and "arrival tk = Msg m sink"
    and "loads m = Inr PNone"
  shows "sentinel_event (step loads dec st tk)
       \<and> phase (step loads dec st tk) = Exited
       \<and> forwarded (step loads dec st tk) = forwarded st
       \<and> logged (step loads dec st tk) =
           logged (if is_set tk then st else arm st tk)
             @ [Info ''Received the sentinel to shutdown'', Debug ''Process log thread terminated'']
       \<and> run loads dec st (tk # tks) = step loads dec st tk"
proof -
  have a: "attempt loads dec (arrival tk) = Inr Sentinel"
    using assms(3,4) by (simp add: attempt_def)
  have s: "step loads dec st tk = body loads dec (if is_set tk then st else arm st tk) (arrival tk)"
    using assms(1,2) by (auto simp: step_def)
  have p: "phase (step loads dec st tk) = Exited"
    by (simp add: s a body_def)
  show ?thesis using p by (simp add: s a body_def run_not_looping)
qed

theorem sentinel_ends_loop_witness:
  "sentinel_event (step Inr ascii_decode (bind_puller None)
      \<lparr>is_set = True, clock_entry = 0, clock_check = 0, arrival = Msg PNone None\<rparr>)
   \<and> phase (step Inr ascii_decode (bind_puller None)
      \<lparr>is_set = True, clock_entry = 0, clock_check = 0, arrival = Msg PNone None\<rparr>) = Exited
   \<and> forwarded (step Inr ascii_decode (bind_puller None)
      \<lparr>is_set = True, clock_entry = 0, clock_check = 0, arrival = Msg PNone None\<rparr>) = []"
  using sentinel_ends_loop [of "bind_puller None"
      "\<lparr>is_set = True, clock_entry = 0, clock_check = 0, arrival = Msg PNone None\<rparr>"
      PNone None Inr ascii_decode "[]"]
  by (simp add: bind_puller_def fresh_def)

subsection \<open>Starting\<close>

text \<open>
  Claim C7. When \<open>bind\<close> raises \<open>ZMQError\<close> in the worker, the worker logs the failure
  at error severity and returns: it never sets the running event, it hands no record
  to the sink whatever arrives, and it ends by returning, not by an exception. The
  caller sees the failure only as \<open>start\<close> raising its \<open>RuntimeError\<close> after the wait.
\<close>

theorem bind_failure_is_silent:
  "\<not> running_event (process_logs loads dec (Some ZMQError) tks)
   \<and> phase (process_logs loads dec (Some ZMQError) tks) = Exited
   \<and> forwarded (process_logs loads dec (Some ZMQError) tks) = []
   \<and> logged (process_logs loads dec (Some ZMQError) tks) = [ErrorExc ''Unable to bind to puller'']
   \<and> start_raises (start (Some ZMQError) bound_after)
        = Some (Exception ''RuntimeError: Failed to start the log server'')"
  by (simp add: process_logs_def run_not_looping bind_puller_def fresh_def start_def event_wait_def)

text \<open>
  Claim C4. \<open>start\<close> waits at most five seconds for the running event. When the worker
  has bound its socket within five seconds, \<open>start\<close> returns normally with the event
  set, as soon as the event is set. Otherwise (the worker is later, or never sets the
  event) \<open>start\<close> has waited the five seconds, clears the event and raises the
  \<open>RuntimeError\<close> that the specification calls \<open>StartupTimeout\<close>.
\<close>

theorem start_bounded_wait:
  "(bind_raises = None \<and> bound_after \<le> 5 \<longrightarrow>
      start_raises (start bind_raises bound_after) = None
      \<and> start_running_event (start bind_raises bound_after)
      \<and> start_blocked (start bind_raises bound_after) = max 0 bound_after)
   \<and> (\<not> (bind_raises = None \<and> bound_after \<le> 5) \<longrightarrow>
      start_raises (start bind_raises bound_after)
        = Some (Exception ''RuntimeError: Failed to start the log server'')
      \<and> \<not> start_running_event (start bind_raises bound_after)
      \<and> start_blocked (start bind_raises bound_after) = 5)"
  by (cases bind_raises)
     (auto simp: start_def event_wait_def bind_puller_def fresh_def split: exc.splits)

theorem start_bounded_wait_witness:
  "start_raises (start None 1) = None \<and> start_running_event (start None 1)
   \<and> start_raises (start None 6)
       = Some (Exception ''RuntimeError: Failed to start the log server'')
   \<and> \<not> start_running_event (start None 6)
   \<and> start_raises (start (Some ZMQError) 1)
       = Some (Exception ''RuntimeError: Failed to start the log server'')"
  using start_bounded_wait [of None 1] start_bounded_wait [of None 6]
    start_bounded_wait [of "Some ZMQError" 1]
  by simp

subsection \<open>Records are forwarded once and in order\<close>

lemma run_append: "run loads dec st (xs @ ys) = run loads dec (run loads dec st xs) ys"
  by (induction xs arbitrary: st) simp_all

lemma handle_exc_fields [simp]:
  "sentinel_event (handle_exc e st) = sentinel_event st"
  "forwarded (handle_exc e st) = forwarded st"
  "exit_timeout (handle_exc e st) = exit_timeout st"
  by (simp_all add: handle_exc_def crash_def split: exc.splits)

lemma body_exit_timeout [simp]: "exit_timeout (body loads dec st a) = exit_timeout st"
  by (simp add: body_def split: sum.splits outcome.splits)

lemma step_quiet:
  assumes "phase st = Looping"
    and "arrival tk = Idle \<or> delivered loads dec tk \<noteq> None"
  shows "sentinel_event (step loads dec st tk) = sentinel_event st
       \<and> (phase (step loads dec st tk) = Looping
            \<and> forwarded (step loads dec st tk)
                = forwarded st @ List.map_filter (delivered loads dec) [tk]
          \<or> phase (step loads dec st tk) \<noteq> Looping)"
proof -
  have "attempt loads dec (arrival tk) = Inr Continue
      \<or> (\<exists>rd. attempt loads dec (arrival tk) = Inr (Forward rd))"
    using assms(2)
    by (auto simp: delivered_def attempt_def split: sum.splits outcome.splits)
  then show ?thesis
    using assms(1)
    by (auto simp: step_def body_def delivered_def List.map_filter_simps)
qed

lemma step_on_sentinel:
  assumes "phase st = Looping" and "attempt loads dec (arrival s) = Inr Sentinel"
  shows "phase (step loads dec st s) = Exited
       \<and> forwarded (step loads dec st s) = forwarded st"
  using assms by (simp add: step_def body_def)

lemma fifo_prefix:
  assumes "phase st = Looping" and "\<not> sentinel_event st"
    and "\<forall>tk\<in>set pre. arrival tk = Idle \<or> delivered loads dec tk \<noteq> None"
    and "sentinel_event (run loads dec st (pre @ rest))"
  shows "phase (run loads dec st pre) = Looping
       \<and> \<not> sentinel_event (run loads dec st pre)
       \<and> forwarded (run loads dec st pre)
           = forwarded st @ List.map_filter (delivered loads dec) pre"
  using assms
proof (induction pre arbitrary: st)
  case Nil
  then show ?case by (simp add: List.map_filter_simps)
next
  case (Cons tk pre)
  let ?st = "step loads dec st tk"
  have q: "sentinel_event ?st = sentinel_event st
       \<and> (phase ?st = Looping
            \<and> forwarded ?st = forwarded st @ List.map_filter (delivered loads dec) [tk]
          \<or> phase ?st \<noteq> Looping)"
    using step_quiet [of st tk loads dec] Cons.prems(1,3) by simp
  show ?case
  proof (cases "phase ?st = Looping")
    case True
    have "phase (run loads dec ?st pre) = Looping
       \<and> \<not> sentinel_event (run loads dec ?st pre)
       \<and> forwarded (run loads dec ?st pre)
           = forwarded ?st @ List.map_filter (delivered loads dec) pre"
      using Cons.IH [of ?st] True q Cons.prems by simp
    then show ?thesis using q True
      by (simp add: List.map_filter_simps split: option.splits)
  next
    case False
    then have "run loads dec ?st (pre @ rest) = ?st"
      by (rule run_not_looping)
    then show ?thesis using Cons.prems(2,4) q by simp
  qed
qed

lemma map_filter_count:
  assumes "\<forall>tk\<in>set pre. arrival tk = Idle \<or> delivered loads dec tk \<noteq> None"
  shows "length (List.map_filter (delivered loads dec) pre)
       = length (filter (\<lambda>tk. arrival tk \<noteq> Idle) pre)"
  using assms
proof (induction pre)
  case Nil
  then show ?case by (simp add: List.map_filter_simps)
next
  case (Cons tk pre)
  have "arrival tk = Idle \<Longrightarrow> delivered loads dec tk = None"
    by (simp add: delivered_def attempt_def)
  then show ?case using Cons
    by (auto simp: List.map_filter_simps split: option.splits)
qed

text \<open>
  Claim C1. Take passes of the loop in which either nothing arrives or a valid record
  arrives (the message decodes to a dict, its normalisation raises nothing and the
  sink takes it), followed by a pass in which the sentinel arrives, and suppose that
  the sentinel is processed (the sentinel event, unset before, is set in the end).
  Then, already before the sentinel's pass, the sink has been handed exactly the
  records of these passes, each once and in the order of arrival; the sentinel's pass
  adds none and ends the loop; and the number of records handed over is the number of
  passes in which a message arrived.
\<close>

theorem fifo_exactly_once:
  assumes "phase st = Looping" and "\<not> sentinel_event st"
    and "\<forall>tk\<in>set pre. arrival tk = Idle \<or> delivered loads dec tk \<noteq> None"
    and "attempt loads dec (arrival s) = Inr Sentinel"
    and "sentinel_event (run loads dec st (pre @ s # post))"
  shows "forwarded (run loads dec st pre)
           = forwarded st @ List.map_filter (delivered loads dec) pre
       \<and> \<not> sentinel_event (run loads dec st pre)
       \<and> forwarded (run loads dec st (pre @ s # post))
           = forwarded st @ List.map_filter (delivered loads dec) pre
       \<and> phase (run loads dec st (pre @ s # post)) = Exited
       \<and> length (List.map_filter (delivered loads dec) pre)
           = length (filter (\<lambda>tk. arrival tk \<noteq> Idle) pre)"
proof -
  let ?st = "run loads dec st pre"
  have p: "phase ?st = Looping \<and> \<not> sentinel_event ?st
       \<and> forwarded ?st = forwarded st @ List.map_filter (delivered loads dec) pre"
    using fifo_prefix [OF assms(1,2,3,5)] .
  have s: "phase (step loads dec ?st s) = Exited
       \<and> forwarded (step loads dec ?st s) = forwarded ?st"
    using step_on_sentinel [of ?st loads dec s] p assms(4) by simp
  have r: "run loads dec st (pre @ s # post) = step loads dec ?st s"
    using s by (simp add: run_append run_not_looping)
  show ?thesis using p s r map_filter_count [OF assms(3)] by simp
qed

theorem fifo_exactly_once_witness:
  "forwarded (run (\<lambda>m. m) ascii_decode (bind_puller None)
     [\<lparr>is_set = True, clock_entry = 0, clock_check = 0,
        arrival = Msg (Inr (PDict [(KStr ''message'', PStr ''one'')])) None\<rparr>,
      \<lparr>is_set = True, clock_entry = 1, clock_check = 1, arrival = Idle\<rparr>,
      \<lparr>is_set = True, clock_entry = 2, clock_check = 2,
        arrival = Msg (Inr (PDict [(KStr ''message'', PStr ''two'')])) None\<rparr>,
      \<lparr>is_set = True, clock_entry = 3, clock_check = 3, arrival = Msg (Inr PNone) None\<rparr>])
   = [[(KStr ''message'', PStr ''one'')], [(KStr ''message'', PStr ''two'')]]"
  using fifo_exactly_once [of "bind_puller None"
     "[\<lparr>is_set = True, clock_entry = 0, clock_check = 0,
        arrival = Msg (Inr (PDict [(KStr ''message'', PStr ''one'')])) None\<rparr>,
      \<lparr>is_set = True, clock_entry = 1, clock_check = 1, arrival = Idle\<rparr>,
      \<lparr>is_set = True, clock_entry = 2, clock_check = 2,
        arrival = Msg (Inr (PDict [(KStr ''message'', PStr ''two'')])) None\<rparr>]"
     "\<lambda>m. m" ascii_decode
     "\<lparr>is_set = True, clock_entry = 3, clock_check = 3, arrival = Msg (Inr PNone) None\<rparr>" "[]"]
  by (simp add: bind_puller_def fresh_def delivered_def attempt_def normalise_def step_def
      body_def exit_loop_def List.map_filter_simps)

subsection \<open>Errors inside the loop\<close>

lemma step_polls:
  assumes "phase st = Looping" and "is_set tk \<or> \<not> expired (arm st tk) tk"
  shows "step loads dec st tk
       = body loads dec (if is_set tk then st else arm st tk) (arrival tk)"
  using assms by (auto simp: step_def)

text \<open>
  Claim C3, as the code has it. When a pass that gets as far as polling raises an
  exception of class \<open>Exception\<close> other than \<open>EOFError\<close> (from the poll, the receive,
  the decoding of a malformed message, the normalisation or the sink), the exception
  is caught and logged at warning severity, nothing is forwarded for that pass and the
  worker stays in its loop; a valid record arriving in the next pass is handed to the
  sink.
\<close>

theorem ordinary_error_continues:
  assumes "phase st = Looping"
    and "is_set bad \<or> \<not> expired (arm st bad) bad"
    and "attempt loads dec (arrival bad) = Inl e"
    and "e = ZMQError \<or> e = Exception s"
    and "is_set good \<or> \<not> expired (arm (step loads dec st bad) good) good"
    and "attempt loads dec (arrival good) = Inr (Forward rd)"
  shows "phase (step loads dec st bad) = Looping
       \<and> forwarded (step loads dec st bad) = forwarded st
       \<and> logged (step loads dec st bad)
           = logged (if is_set bad then st else arm st bad)
               @ [Warning ''An exception occurred in the processing queue thread'']
       \<and> phase (run loads dec st [bad, good]) = Looping
       \<and> forwarded (run loads dec st [bad, good]) = forwarded st @ [rd]"
proof -
  let ?st = "step loads dec st bad"
  have b: "?st = handle_exc e (if is_set bad then st else arm st bad)"
    using step_polls [OF assms(1,2)] assms(3) by (simp add: body_def)
  have p: "phase ?st = Looping"
    using assms(1,4) by (auto simp: b handle_exc_def)
  have l: "logged ?st = logged (if is_set bad then st else arm st bad)
               @ [Warning ''An exception occurred in the processing queue thread'']"
    using assms(4) by (auto simp: b handle_exc_def)
  have f: "forwarded ?st = forwarded st"
    by (simp add: b)
  have g: "step loads dec ?st good
       = body loads dec (if is_set good then ?st else arm ?st good) (arrival good)"
    using step_polls [OF p assms(5)] .
  have "phase (step loads dec ?st good) = Looping
      \<and> forwarded (step loads dec ?st good) = forwarded st @ [rd]"
    using p f assms(6) by (simp add: g body_def)
  then show ?thesis using p l f by simp
qed

theorem ordinary_error_continues_witness:
  "phase (run (\<lambda>m. m) ascii_decode (bind_puller None)
     [\<lparr>is_set = True, clock_entry = 0, clock_check = 0,
        arrival = Msg (Inl (Exception ''ValueError'')) None\<rparr>,
      \<lparr>is_set = True, clock_entry = 1, clock_check = 1,
        arrival = Msg (Inr (PDict [(KStr ''message'', PStr ''two'')])) None\<rparr>]) = Looping
   \<and> forwarded (run (\<lambda>m. m) ascii_decode (bind_puller None)
     [\<lparr>is_set = True, clock_entry = 0, clock_check = 0,
        arrival = Msg (Inl (Exception ''ValueError'')) None\<rparr>,
      \<lparr>is_set = True, clock_entry = 1, clock_check = 1,
        arrival = Msg (Inr (PDict [(KStr ''message'', PStr ''two'')])) None\<rparr>])
     = [[(KStr ''message'', PStr ''two'')]]"
  using ordinary_error_continues [of "bind_puller None"
     "\<lparr>is_set = True, clock_entry = 0, clock_check = 0,
        arrival = Msg (Inl (Exception ''ValueError'')) None\<rparr>"
     "\<lambda>m. m" ascii_decode "Exception ''ValueError''" "''ValueError''"
     "\<lparr>is_set = True, clock_entry = 1, clock_check = 1,
        arrival = Msg (Inr (PDict [(KStr ''message'', PStr ''two'')])) None\<rparr>"
     "[(KStr ''message'', PStr ''two'')]"]
  by (simp add: bind_puller_def fresh_def attempt_def normalise_def)

text \<open>
  The claim as the specification words it (any forwarding error is caught, logged and
  the loop continues) fails for the exceptions of the first handler: when the sink
  raises \<open>EOFError\<close> for a record, the worker leaves the loop without a warning and the
  valid record of the next pass is never forwarded.
\<close>

theorem eof_error_ends_worker:
  "phase (run (\<lambda>m. m) ascii_decode (bind_puller None)
     [\<lparr>is_set = True, clock_entry = 0, clock_check = 0,
        arrival = Msg (Inr (PDict [(KStr ''message'', PStr ''one'')])) (Some EOFError)\<rparr>,
      \<lparr>is_set = True, clock_entry = 1, clock_check = 1,
        arrival = Msg (Inr (PDict [(KStr ''message'', PStr ''two'')])) None\<rparr>]) = Exited
   \<and> forwarded (run (\<lambda>m. m) ascii_decode (bind_puller None)
     [\<lparr>is_set = True, clock_entry = 0, clock_check = 0,
        arrival = Msg (Inr (PDict [(KStr ''message'', PStr ''one'')])) (Some EOFError)\<rparr>,
      \<lparr>is_set = True, clock_entry = 1, clock_check = 1,
        arrival = Msg (Inr (PDict [(KStr ''message'', PStr ''two'')])) None\<rparr>]) = []
   \<and> logged (run (\<lambda>m. m) ascii_decode (bind_puller None)
     [\<lparr>is_set = True, clock_entry = 0, clock_check = 0,
        arrival = Msg (Inr (PDict [(KStr ''message'', PStr ''one'')])) (Some EOFError)\<rparr>,
      \<lparr>is_set = True, clock_entry = 1, clock_check = 1,
        arrival = Msg (Inr (PDict [(KStr ''message'', PStr ''two'')])) None\<rparr>])
     = [Debug ''Process log thread terminated'']"
  by (simp add: bind_puller_def fresh_def attempt_def normalise_def step_def body_def
      handle_exc_def exit_loop_def)

subsection \<open>Draining after the running event is cleared\<close>

lemma step_exit_timeout:
  "exit_timeout (step loads dec st tk)
     = (if phase st = Looping \<and> \<not> is_set tk then exit_timeout (arm st tk) else exit_timeout st)"
  by (simp add: step_def)

lemma step_past_deadline:
  assumes "\<not> is_set tk" and "exit_timeout (arm st tk) = Some d" and "d \<le> clock_check tk"
  shows "phase (step loads dec st tk) \<noteq> Looping"
  using assms by (simp add: step_def expired_def)

lemma run_looping_prefix:
  "phase (run loads dec st tks) = Looping \<Longrightarrow> phase st = Looping"
  using run_not_looping [of st loads dec tks] by (cases "phase st = Looping") simp_all

lemma drain_armed:
  assumes "\<forall>tk\<in>set tks. \<not> is_set tk" and "exit_timeout st = Some d"
  shows "exit_timeout (run loads dec st tks) = Some d
       \<and> (phase (run loads dec st tks) = Looping \<longrightarrow> (\<forall>tk\<in>set tks. clock_check tk < d))"
  using assms
proof (induction tks arbitrary: st)
  case Nil
  then show ?case by simp
next
  case (Cons tk tks)
  let ?st = "step loads dec st tk"
  have a: "exit_timeout (arm st tk) = Some d"
    using Cons.prems(2) by (simp add: arm_def)
  have e: "exit_timeout ?st = Some d"
    using a Cons.prems(2) by (simp add: step_exit_timeout)
  have ih: "exit_timeout (run loads dec ?st tks) = Some d
       \<and> (phase (run loads dec ?st tks) = Looping \<longrightarrow> (\<forall>tk\<in>set tks. clock_check tk < d))"
    using Cons.IH [of ?st] Cons.prems(1) e by simp
  have "clock_check tk < d" if "phase (run loads dec ?st tks) = Looping"
  proof (rule ccontr)
    assume "\<not> clock_check tk < d"
    then have "phase ?st \<noteq> Looping"
      using step_past_deadline [of tk st d loads dec] a Cons.prems(1) by simp
    then show False using run_looping_prefix [OF that] by simp
  qed
  then show ?case using ih by auto
qed

lemma drain_first:
  assumes "phase st = Looping" and "exit_timeout st = None"
    and "\<forall>tk\<in>set (tk0 # tks). \<not> is_set tk"
  shows "exit_timeout (run loads dec st (tk0 # tks)) = Some (clock_entry tk0 + 5)
       \<and> (phase (run loads dec st (tk0 # tks)) = Looping
            \<longrightarrow> (\<forall>tk\<in>set (tk0 # tks). clock_check tk < clock_entry tk0 + 5))"
proof -
  let ?d = "clock_entry tk0 + 5"
  let ?st = "step loads dec st tk0"
  have a: "exit_timeout (arm st tk0) = Some ?d"
    using assms(2) by (simp add: arm_def exit_timeout_seconds_def)
  have e: "exit_timeout ?st = Some ?d"
    using a assms(1,3) by (simp add: step_exit_timeout)
  have r: "exit_timeout (run loads dec ?st tks) = Some ?d
       \<and> (phase (run loads dec ?st tks) = Looping \<longrightarrow> (\<forall>tk\<in>set tks. clock_check tk < ?d))"
    using drain_armed [of tks ?st ?d loads dec] assms(3) e by simp
  have "clock_check tk0 < ?d" if "phase (run loads dec ?st tks) = Looping"
  proof (rule ccontr)
    assume "\<not> clock_check tk0 < ?d"
    then have "phase ?st \<noteq> Looping"
      using step_past_deadline [of tk0 st ?d loads dec] a assms(3) by simp
    then show False using run_looping_prefix [OF that] by simp
  qed
  then show ?thesis using r by auto
qed

lemma poll_blocks_at_most: "0 \<le> ms \<Longrightarrow> snd (poll r ms) \<le> ms / 1000"
  by (auto simp: poll_def max_def split: option.splits)

lemma elapsed_bound: "elapsed p \<le> 1 + handling p"
  using poll_blocks_at_most [of 1000 "ready_after p"] by (simp add: elapsed_def polled_def)

lemma elapsed_idle: "\<not> fst (polled p) \<Longrightarrow> handling p = 0 \<and> elapsed p = 1"
  by (auto simp: elapsed_def handling_def polled_def poll_def split: option.splits if_splits)

lemma observe_fields [simp]:
  "is_set (observe t p) = flag p" "clock_entry (observe t p) = t"
  "clock_check (observe t p) = t"
  by (simp_all add: observe_def)

lemma timeline_append:
  "timeline t (xs @ ys) = timeline t xs @ timeline (clock_after t xs) ys"
  by (induction xs arbitrary: t) simp_all

lemma clock_after_snoc: "clock_after t (xs @ [p]) = clock_after t xs + elapsed p"
  by (induction xs arbitrary: t) simp_all

lemma timeline_clear:
  "\<forall>p\<in>set ps. \<not> flag p \<Longrightarrow> \<forall>tk\<in>set (timeline t ps). \<not> is_set tk"
  by (induction ps arbitrary: t) simp_all

lemma run_snoc_pass:
  "run loads dec st (timeline t (pre @ [p]))
     = step loads dec (run loads dec st (timeline t pre)) (observe (clock_after t pre) p)"
  by (simp add: timeline_append run_append)

lemma drain_timeline:
  assumes "phase st = Looping" and "exit_timeout st = None"
    and "\<forall>p\<in>set (q # qs). \<not> flag p"
  shows "exit_timeout (run loads dec st (timeline t0 (q # qs))) = Some (t0 + 5)
       \<and> (phase (run loads dec st (timeline t0 (q # qs))) = Looping
            \<longrightarrow> (\<forall>tk\<in>set (timeline t0 (q # qs)). clock_check tk < t0 + 5))"
proof -
  have clear: "\<forall>tk\<in>set (observe t0 q # timeline (t0 + elapsed q) qs). \<not> is_set tk"
    using timeline_clear [OF assms(3), of t0] by simp
  show ?thesis
    using drain_first [OF assms(1,2) clear, of loads dec] by simp
qed

text \<open>
  Claim C8. The worker is in its loop with no deadline set, and from a pass that
  begins at time \<open>t0\<close> on it sees the running event cleared. The deadline is then
  \<open>t0 + 5\<close>, for good. A pass that the worker begins in its loop before the deadline
  is an ordinary pass (the body of the loop runs on what the poll returns, so a record
  is still forwarded); a pass that begins at or after the deadline ends the loop with
  the log line of the forced exit and forwards nothing. Since \<open>poll\<close> blocks for at
  most one second, a pass takes at most one second plus the time spent on handling
  what \<open>poll\<close> returned, and exactly one second when \<open>poll\<close> returned nothing. Hence
  every pass that the worker begins in its loop begins before the deadline plus one
  second plus the handling time of the pass before it: with no traffic the worker is
  out of its loop before the deadline plus one second.
\<close>

theorem drain_deadline:
  assumes "phase st = Looping" and "exit_timeout st = None"
    and "\<forall>p\<in>set (p0 # ps). \<not> flag p"
  shows "exit_timeout (run loads dec st (timeline t0 (p0 # ps))) = Some (t0 + 5)
       \<and> (\<forall>pre p post.
            p0 # ps = pre @ p # post \<and> phase (run loads dec st (timeline t0 pre)) = Looping
            \<longrightarrow>
              (clock_after t0 pre < t0 + 5 \<longrightarrow>
                 run loads dec st (timeline t0 (pre @ [p]))
                   = body loads dec
                       (arm (run loads dec st (timeline t0 pre)) (observe (clock_after t0 pre) p))
                       (arrival (observe (clock_after t0 pre) p)))
            \<and> (t0 + 5 \<le> clock_after t0 pre \<longrightarrow>
                 run loads dec st (timeline t0 (pre @ [p]))
                   = exit_loop ((run loads dec st (timeline t0 pre))
                       \<lparr>logged := logged (run loads dec st (timeline t0 pre)) @
                         [Debug ''Unable to process remaining log messages in time. Exiting anyway.'']\<rparr>))
            \<and> clock_after t0 pre
                < t0 + 5 + 1 + (if pre = [] then 0 else handling (last pre)))
       \<and> ((\<exists>pre p post. p0 # ps = pre @ p # post \<and> t0 + 5 \<le> clock_after t0 pre)
            \<longrightarrow> phase (run loads dec st (timeline t0 (p0 # ps))) \<noteq> Looping)
       \<and> (\<forall>p\<in>set (p0 # ps). elapsed p \<le> 1 + handling p
            \<and> (\<not> fst (polled p) \<longrightarrow> handling p = 0 \<and> elapsed p = 1))"
proof -
  let ?d = "t0 + 5"
  have deadline: "exit_timeout (run loads dec st (timeline t0 (p0 # ps))) = Some ?d"
    and below: "phase (run loads dec st (timeline t0 (p0 # ps))) = Looping
            \<Longrightarrow> \<forall>tk\<in>set (timeline t0 (p0 # ps)). clock_check tk < ?d"
    using drain_timeline [OF assms, of loads dec t0] by simp_all
  have each: "(clock_after t0 pre < ?d \<longrightarrow>
                 run loads dec st (timeline t0 (pre @ [p]))
                   = body loads dec
                       (arm (run loads dec st (timeline t0 pre)) (observe (clock_after t0 pre) p))
                       (arrival (observe (clock_after t0 pre) p)))
            \<and> (?d \<le> clock_after t0 pre \<longrightarrow>
                 run loads dec st (timeline t0 (pre @ [p]))
                   = exit_loop ((run loads dec st (timeline t0 pre))
                       \<lparr>logged := logged (run loads dec st (timeline t0 pre)) @
                         [Debug ''Unable to process remaining log messages in time. Exiting anyway.'']\<rparr>))
            \<and> clock_after t0 pre < ?d + 1 + (if pre = [] then 0 else handling (last pre))"
    if split: "p0 # ps = pre @ p # post"
      and loop: "phase (run loads dec st (timeline t0 pre)) = Looping"
    for pre p post
  proof -
    let ?st = "run loads dec st (timeline t0 pre)"
    let ?t = "clock_after t0 pre"
    let ?tk = "observe ?t p"
    have clr: "\<not> flag p" and clrs: "\<forall>x\<in>set pre. \<not> flag x"
      using assms(3) split by (metis in_set_conv_decomp, metis Un_iff set_append)
    have armed: "exit_timeout (arm ?st ?tk) = Some ?d"
      and same: "pre \<noteq> [] \<Longrightarrow> arm ?st ?tk = ?st"
    proof -
      show "exit_timeout (arm ?st ?tk) = Some ?d"
      proof (cases pre)
        case Nil
        then show ?thesis
          using assms(2) by (simp add: arm_def exit_timeout_seconds_def)
      next
        case (Cons q qs)
        have "\<forall>x\<in>set (q # qs). \<not> flag x" using clrs Cons by simp
        then have "exit_timeout ?st = Some ?d"
          using drain_timeline [OF assms(1,2), of q qs loads dec t0] Cons by simp
        then show ?thesis by (simp add: arm_def)
      qed
      show "arm ?st ?tk = ?st" if ne: "pre \<noteq> []"
      proof -
        obtain q qs where Cons: "pre = q # qs" using ne by (cases pre) auto
        have "\<forall>x\<in>set (q # qs). \<not> flag x" using clrs Cons by simp
        then have "exit_timeout ?st = Some ?d"
          using drain_timeline [OF assms(1,2), of q qs loads dec t0] Cons by simp
        then show ?thesis by (simp add: arm_def)
      qed
    qed
    have r: "run loads dec st (timeline t0 (pre @ [p])) = step loads dec ?st ?tk"
      by (rule run_snoc_pass)
    have before: "step loads dec ?st ?tk = body loads dec (arm ?st ?tk) (arrival ?tk)"
      if "?t < ?d"
      using that loop clr armed by (simp add: step_def expired_def)
    have at: "step loads dec ?st ?tk
        = exit_loop (?st\<lparr>logged := logged ?st @
            [Debug ''Unable to process remaining log messages in time. Exiting anyway.'']\<rparr>)"
      if le: "?d \<le> ?t"
    proof -
      have "pre \<noteq> []" using le by (cases pre) simp_all
      then have "arm ?st ?tk = ?st" by (rule same)
      then show ?thesis using le loop clr armed by (simp add: step_def expired_def)
    qed
    have bound: "?t < ?d + 1 + (if pre = [] then 0 else handling (last pre))"
    proof (cases pre rule: rev_cases)
      case Nil
      then show ?thesis by simp
    next
      case (snoc qs l)
      have ne: "pre \<noteq> []" using snoc by simp
      obtain a as where pre: "pre = a # as" using ne by (cases pre) auto
      have "\<forall>x\<in>set (a # as). \<not> flag x" using clrs pre by simp
      then have "\<forall>tk\<in>set (timeline t0 pre). clock_check tk < ?d"
        using drain_timeline [OF assms(1,2), of a as loads dec t0] loop pre by simp
      then have "clock_after t0 qs < ?d"
        using snoc by (simp add: timeline_append)
      moreover have "?t = clock_after t0 qs + elapsed l"
        using snoc by (simp add: clock_after_snoc)
      moreover have "elapsed l \<le> 1 + handling l"
        by (rule elapsed_bound)
      ultimately show ?thesis using snoc by simp
    qed
    show ?thesis using r before at bound by simp
  qed
  have force: "phase (run loads dec st (timeline t0 (p0 # ps))) \<noteq> Looping"
    if "\<exists>pre p post. p0 # ps = pre @ p # post \<and> ?d \<le> clock_after t0 pre"
  proof
    assume loop: "phase (run loads dec st (timeline t0 (p0 # ps))) = Looping"
    from that obtain pre p post where
      split: "p0 # ps = pre @ p # post" and le: "?d \<le> clock_after t0 pre" by blast
    have "observe (clock_after t0 pre) p \<in> set (timeline t0 (p0 # ps))"
      by (simp only: split timeline_append) simp
    then have "clock_check (observe (clock_after t0 pre) p) < ?d"
      using below [OF loop] by blast
    then show False using le by simp
  qed
  have pace: "\<forall>p\<in>set (p0 # ps). elapsed p \<le> 1 + handling p
            \<and> (\<not> fst (polled p) \<longrightarrow> handling p = 0 \<and> elapsed p = 1)"
    using elapsed_bound elapsed_idle by blast
  show ?thesis using deadline each force pace by blast
qed

theorem drain_deadline_witness:
  "exit_timeout (run (\<lambda>m. m) ascii_decode (bind_puller None) (timeline 10
     [\<lparr>flag = False, ready_after = None, received = Idle, busy = 0\<rparr>,
      \<lparr>flag = False, ready_after = Some (1 / 2),
        received = Msg (Inr (PDict [(KStr ''message'', PStr ''late'')])) None, busy = 1 / 2\<rparr>,
      \<lparr>flag = False, ready_after = None, received = Idle, busy = 0\<rparr>,
      \<lparr>flag = False, ready_after = None, received = Idle, busy = 0\<rparr>,
      \<lparr>flag = False, ready_after = None, received = Idle, busy = 0\<rparr>,
      \<lparr>flag = False, ready_after = None, received = Idle, busy = 0\<rparr>])) = Some 15
   \<and> phase (run (\<lambda>m. m) ascii_decode (bind_puller None) (timeline 10
     [\<lparr>flag = False, ready_after = None, received = Idle, busy = 0\<rparr>,
      \<lparr>flag = False, ready_after = Some (1 / 2),
        received = Msg (Inr (PDict [(KStr ''message'', PStr ''late'')])) None, busy = 1 / 2\<rparr>,
      \<lparr>flag = False, ready_after = None, received = Idle, busy = 0\<rparr>,
      \<lparr>flag = False, ready_after = None, received = Idle, busy = 0\<rparr>,
      \<lparr>flag = False, ready_after = None, received = Idle, busy = 0\<rparr>,
      \<lparr>flag = False, ready_after = None, received = Idle, busy = 0\<rparr>])) = Exited
   \<and> forwarded (run (\<lambda>m. m) ascii_decode (bind_puller None) (timeline 10
     [\<lparr>flag = False, ready_after = None, received = Idle, busy = 0\<rparr>,
      \<lparr>flag = False, ready_after = Some (1 / 2),
        received = Msg (Inr (PDict [(KStr ''message'', PStr ''late'')])) None, busy = 1 / 2\<rparr>,
      \<lparr>flag = False, ready_after = None, received = Idle, busy = 0\<rparr>,
      \<lparr>flag = False, ready_after = None, received = Idle, busy = 0\<rparr>,
      \<lparr>flag = False, ready_after = None, received = Idle, busy = 0\<rparr>,
      \<lparr>flag = False, ready_after = None, received = Idle, busy = 0\<rparr>]))
     = [[(KStr ''message'', PStr ''late'')]]"
  using drain_deadline [of "bind_puller None"
     "\<lparr>flag = False, ready_after = None, received = Idle, busy = 0\<rparr>"
     "[\<lparr>flag = False, ready_after = Some (1 / 2),
        received = Msg (Inr (PDict [(KStr ''message'', PStr ''late'')])) None, busy = 1 / 2\<rparr>,
      \<lparr>flag = False, ready_after = None, received = Idle, busy = 0\<rparr>,
      \<lparr>flag = False, ready_after = None, received = Idle, busy = 0\<rparr>,
      \<lparr>flag = False, ready_after = None, received = Idle, busy = 0\<rparr>,
      \<lparr>flag = False, ready_after = None, received = Idle, busy = 0\<rparr>]"
     "\<lambda>m. m" ascii_decode 10, THEN conjunct1]
  by (simp add: bind_puller_def fresh_def observe_def polled_def poll_def elapsed_def
      handling_def step_def body_def attempt_def normalise_def arm_def expired_def
      exit_loop_def exit_timeout_seconds_def)

subsection \<open>Stopping\<close>

lemma event_wait_bound: "0 \<le> timeout \<Longrightarrow> snd (event_wait a timeout) \<le> timeout"
  by (simp add: event_wait_def split: option.splits)

lemma thread_join_bound: "0 \<le> timeout \<Longrightarrow> snd (thread_join a timeout) \<le> timeout"
  by (simp add: thread_join_def split: option.splits)

lemma context_term_bound: "0 \<le> linger \<Longrightarrow> context_term a linger \<le> linger"
  by (simp add: context_term_def split: option.splits)

lemma second_join_bound: "snd (second_join env) \<le> 5"
  using thread_join_bound [of 5] by (simp add: second_join_def)

text \<open>
  Claim C6. \<open>stop\<close> makes its calls in this order: it connects a sender, sends the
  sentinel, waits up to five seconds for the sentinel event, closes the sender (with a
  linger period of 1000 milliseconds) and terminates its context, clears the running
  event, and joins the worker thread for up to seven seconds; only when the thread is
  still alive then it joins a second time, for up to five seconds. A wait that ends
  unacknowledged changes nothing but a logged warning; the last thing \<open>stop\<close> does is
  to log, a warning when the thread is alive after the second join; the running event
  is left cleared.
\<close>

theorem stop_order:
  "calls (actions (stop env))
     = [Connect, SendSentinel, WaitSentinel 5, CloseSender 1000, TermContext, ClearRunning, Join 7]
       @ (if fst (thread_join (ended_after env) 7) then [Join 5] else [])
   \<and> (Log (Warning
        ''Failed to wait for the reception of the stop sentinel message. Stopping anyway.'')
        \<in> set (actions (stop env)))
       = (\<not> fst (event_wait (acked_after env) 5))
   \<and> last (actions (stop env))
       = (if thread_alive (stop env)
          then Log (Warning ''The logging server thread is still running...'')
          else Log (Debug ''Stopped''))
   \<and> (thread_alive (stop env) = (fst (thread_join (ended_after env) 7) \<and>
         fst (thread_join (map_option (\<lambda>d. d - 7) (ended_after env)) 5)))
   \<and> \<not> stop_running_event (stop env)"
  by (simp add: stop_def calls_def second_join_def)

text \<open>
  Claim C5, as the code has it. The time \<open>stop\<close> blocks is the sum of four bounded
  waits: up to 5 seconds for the sentinel event, up to 1 second in terminating the
  context of the sender (the linger period of \<open>sender.close(1000)\<close>, spent while the
  sentinel has not left the sender), up to 7 seconds in the first join and up to 5 in
  the second. So \<open>stop\<close> blocks at most 18 seconds, and at most 17 when the sentinel
  has left the sender by the time the sender is closed. No expiry is an error.
\<close>

theorem stop_blocks_at_most_18:
  "stop_blocked (stop env)
     = snd (event_wait (acked_after env) 5) + context_term (flushed_after env) 1
       + snd (thread_join (ended_after env) 7) + snd (second_join env)
   \<and> snd (event_wait (acked_after env) 5) \<le> 5
   \<and> context_term (flushed_after env) 1 \<le> 1
   \<and> snd (thread_join (ended_after env) 7) \<le> 7
   \<and> snd (second_join env) \<le> 5
   \<and> stop_blocked (stop env) \<le> 18
   \<and> ((\<exists>d. flushed_after env = Some d \<and> d \<le> 0) \<longrightarrow> stop_blocked (stop env) \<le> 17)"
proof -
  have a: "snd (event_wait (acked_after env) 5) \<le> 5"
    by (rule event_wait_bound) simp
  have b: "context_term (flushed_after env) 1 \<le> 1"
    by (rule context_term_bound) simp
  have c: "snd (thread_join (ended_after env) 7) \<le> 7"
    by (rule thread_join_bound) simp
  have d: "snd (second_join env) \<le> 5"
    by (rule second_join_bound)
  have e: "stop_blocked (stop env)
     = snd (event_wait (acked_after env) 5) + context_term (flushed_after env) 1
       + snd (thread_join (ended_after env) 7) + snd (second_join env)"
    by (simp add: stop_def)
  have f: "context_term (flushed_after env) 1 = 0"
    if "\<exists>d. flushed_after env = Some d \<and> d \<le> 0"
    using that by (auto simp: context_term_def)
  show ?thesis using a b c d e f by auto
qed

theorem stop_blocks_at_most_18_witness:
  "stop_blocked (stop \<lparr>acked_after = None, flushed_after = Some 0, ended_after = None\<rparr>) \<le> 17
   \<and> stop_blocked (stop \<lparr>acked_after = Some 1, flushed_after = Some 0, ended_after = Some 2\<rparr>)
       \<le> 18"
  using stop_blocks_at_most_18 [of "\<lparr>acked_after = None, flushed_after = Some 0, ended_after = None\<rparr>"]
    stop_blocks_at_most_18 [of "\<lparr>acked_after = Some 1, flushed_after = Some 0, ended_after = Some 2\<rparr>"]
  by simp

text \<open>
  The bound of 17 seconds fails when nothing answers: the sentinel is never
  acknowledged and never leaves the sender, and the worker thread does not end.
\<close>

theorem stop_can_block_18:
  "stop_blocked (stop \<lparr>acked_after = None, flushed_after = None, ended_after = None\<rparr>) = 18
   \<and> \<not> stop_blocked (stop \<lparr>acked_after = None, flushed_after = None, ended_after = None\<rparr>) \<le> 17"
  by (simp add: stop_def event_wait_def context_term_def thread_join_def second_join_def)

subsection \<open>Records dumped by Python 2\<close>

lemma update_fresh: "k \<notin> fst ` set al \<Longrightarrow> AList.update k v al = al @ [(k, v)]"
  by (induction al) auto

lemma norm_entry_legacy:
  assumes "bytes_key (fst kv)"
    and "text_key dec (fst kv) = Some k" and "text_value dec (snd kv) = Some v"
  shows "norm_entry dec acc kv = Inr (AList.update k v acc)"
  using assms
  by (auto simp: norm_entry_def decode_value_def decode_key_def bytes_key_def
      text_key_def text_value_def split: pykey.splits pyval.splits option.splits)

lemma norm_items_legacy:
  assumes "list_all (\<lambda>kv. bytes_key (fst kv)) items"
    and "text_only dec items = Some t"
    and "distinct (map fst t)"
    and "fst ` set t \<inter> fst ` set acc = {}"
  shows "norm_items dec acc items = Inr (acc @ t)"
  using assms
proof (induction items arbitrary: acc t)
  case Nil
  then show ?case by simp
next
  case (Cons kv items)
  from Cons.prems(2) obtain k v t' where
    k: "text_key dec (fst kv) = Some k" and v: "text_value dec (snd kv) = Some v"
    and t': "text_only dec items = Some t'" and t: "t = (k, v) # t'"
    by (auto split: option.splits)
  have fresh: "k \<notin> fst ` set acc"
    using Cons.prems(4) t by auto
  have e: "norm_entry dec acc kv = Inr (acc @ [(k, v)])"
    using norm_entry_legacy [OF _ k v, of acc] Cons.prems(1) update_fresh [OF fresh] by simp
  have "norm_items dec (acc @ [(k, v)]) items = Inr ((acc @ [(k, v)]) @ t')"
  proof (rule Cons.IH [OF _ t'])
    show "list_all (\<lambda>kv. bytes_key (fst kv)) items" using Cons.prems(1) by simp
    show "distinct (map fst t')" using Cons.prems(3) t by simp
    show "fst ` set t' \<inter> fst ` set (acc @ [(k, v)]) = {}"
      using Cons.prems(3,4) t by auto
  qed
  then show ?case using e t by simp
qed

lemma text_only_keys:
  assumes "list_all (\<lambda>kv. bytes_key (fst kv)) rd" and "text_only dec rd = Some t"
  shows "list_all (\<lambda>kv. \<exists>s. fst kv = KStr s) t"
  using assms
proof (induction rd arbitrary: t)
  case Nil
  then show ?case by simp
next
  case (Cons kv rd)
  then show ?case
    by (auto simp: text_key_def bytes_key_def split: option.splits pykey.splits)
qed

lemma bytes_keyD: "bytes_key k \<Longrightarrow> \<exists>b. k = KBytes b"
  by (cases k) (simp_all add: bytes_key_def)

lemma map_of_no_key: "k \<notin> fst ` set al \<Longrightarrow> map_of al k = None"
  by (simp add: map_of_eq_None_iff)

text \<open>
  Claim C9, as the code has it. For a legacy record whose keys are all byte strings,
  whose byte strings all decode and whose decoded keys are distinct, the pass returns
  the record followed by the entries of its text-only counterpart, in order. So the
  dict handed to the sink agrees with the text-only record at every text key, and it
  still holds every byte string key with the value it had.
\<close>

theorem legacy_record_gains_text_entries:
  assumes "list_all (\<lambda>kv. bytes_key (fst kv)) rd"
    and "text_only dec rd = Some t"
    and "distinct (map fst t)"
  shows "normalise dec rd = Inr (rd @ t)
       \<and> (\<forall>s. map_of (rd @ t) (KStr s) = map_of t (KStr s))
       \<and> (\<forall>b. map_of (rd @ t) (KBytes b) = map_of rd (KBytes b))
       \<and> (loads m = Inr (PDict rd) \<longrightarrow>
            attempt loads dec (Msg m None) = Inr (Forward (rd @ t)))"
proof -
  have tk: "list_all (\<lambda>kv. \<exists>s. fst kv = KStr s) t"
    using text_only_keys [OF assms(1,2)] .
  have rk: "\<forall>kv\<in>set rd. \<exists>b. fst kv = KBytes b"
    using assms(1) bytes_keyD by (auto simp: list_all_iff)
  have disj: "fst ` set t \<inter> fst ` set rd = {}"
    using tk rk by (fastforce simp: list_all_iff)
  have nostr: "map_of rd (KStr s) = None" for s
    using rk by (intro map_of_no_key) force
  have nobytes: "map_of t (KBytes b) = None" for b
    using tk by (intro map_of_no_key) (force simp: list_all_iff)
  have n: "normalise dec rd = Inr (rd @ t)"
    using norm_items_legacy [OF assms(1,2,3) disj] nostr by (simp add: normalise_def)
  have s: "map_of (rd @ t) (KStr s) = map_of t (KStr s)" for s
    using nostr [of s] by (simp add: map_add_def)
  have b: "map_of (rd @ t) (KBytes b) = map_of rd (KBytes b)" for b
    using nobytes [of b] by (simp add: map_add_def split: option.splits)
  show ?thesis using n s b by (simp add: attempt_def)
qed

theorem legacy_record_gains_text_entries_witness:
  "normalise ascii_decode [(KBytes ''name'', PBytes ''salt''), (KBytes ''levelno'', PInt 20)]
     = Inr [(KBytes ''name'', PBytes ''salt''), (KBytes ''levelno'', PInt 20),
            (KStr ''name'', PStr ''salt''), (KStr ''levelno'', PInt 20)]"
  using legacy_record_gains_text_entries [of
      "[(KBytes ''name'', PBytes ''salt''), (KBytes ''levelno'', PInt 20)]" ascii_decode
      "[(KStr ''name'', PStr ''salt''), (KStr ''levelno'', PInt 20)]" "\<lambda>m. m" "Inr PNone"]
  by (simp add: bytes_key_def text_key_def text_value_def ascii_decode_def)

text \<open>
  The dict handed to the sink is not the text-only record: for the legacy record
  \<open>{b"msg": b"hi"}\<close> it is \<open>{b"msg": b"hi", "msg": "hi"}\<close>, which has a key and a value
  that are byte strings.
\<close>

theorem legacy_record_not_text_only:
  "attempt (\<lambda>m. m) ascii_decode (Msg (Inr (PDict [(KBytes ''msg'', PBytes ''hi'')])) None)
     = Inr (Forward [(KBytes ''msg'', PBytes ''hi''), (KStr ''msg'', PStr ''hi'')])
   \<and> text_only ascii_decode [(KBytes ''msg'', PBytes ''hi'')] = Some [(KStr ''msg'', PStr ''hi'')]
   \<and> map_of [(KBytes ''msg'', PBytes ''hi''), (KStr ''msg'', PStr ''hi'')] (KBytes ''msg'')
       = Some (PBytes ''hi'')"
  by (simp add: attempt_def normalise_def norm_entry_def decode_value_def decode_key_def
      text_key_def text_value_def ascii_decode_def)

lemma norm_entry_keeps:
  assumes "norm_entry dec acc kv = Inr acc'"
    and "map_of acc (KStr k) = Some (PStr v)"
    and "fst kv = KStr k \<longrightarrow> snd kv = PStr v"
    and "\<forall>b. fst kv = KBytes b \<longrightarrow> dec b \<noteq> Some k"
  shows "map_of acc' (KStr k) = Some (PStr v)"
  using assms
  by (auto simp: norm_entry_def decode_value_def decode_key_def update_conv'
      split: pykey.splits pyval.splits option.splits if_splits)

lemma norm_items_keeps:
  assumes "norm_items dec acc items = Inr rd'"
    and "map_of acc (KStr k) = Some (PStr v)"
    and "\<forall>kv\<in>set items. (fst kv = KStr k \<longrightarrow> snd kv = PStr v)
            \<and> (\<forall>b. fst kv = KBytes b \<longrightarrow> dec b \<noteq> Some k)"
  shows "map_of rd' (KStr k) = Some (PStr v)"
  using assms
proof (induction items arbitrary: acc)
  case Nil
  then show ?case by simp
next
  case (Cons kv items)
  from Cons.prems(1) obtain acc' where
    e: "norm_entry dec acc kv = Inr acc'" and r: "norm_items dec acc' items = Inr rd'"
    by (auto split: sum.splits)
  have "map_of acc' (KStr k) = Some (PStr v)"
    using norm_entry_keeps [OF e Cons.prems(2)] Cons.prems(3) by simp
  then show ?case using Cons.IH [OF r] Cons.prems(3) by simp
qed

text \<open>
  Claim C10, as the code has it. A dict with the text key \<open>message\<close> is handed to the
  sink as it is, whatever byte strings it holds. When the pass runs, its turn for an
  entry with a text key and a text value writes nothing; and such an entry of a dict
  (distinct keys) is in the result as it was, provided no byte string key of the dict
  decodes to its key.
\<close>

theorem message_key_gates_the_pass:
  "(map_of rd (KStr ''message'') \<noteq> None \<longrightarrow>
      normalise dec rd = Inr rd
      \<and> (loads m = Inr (PDict rd) \<longrightarrow> attempt loads dec (Msg m None) = Inr (Forward rd)))
   \<and> norm_entry dec acc (KStr k, PStr v) = Inr acc
   \<and> (normalise dec rd = Inr rd' \<and> distinct (map fst rd) \<and> (KStr k, PStr v) \<in> set rd
        \<and> (\<forall>b. KBytes b \<in> fst ` set rd \<longrightarrow> dec b \<noteq> Some k)
      \<longrightarrow> map_of rd' (KStr k) = Some (PStr v))"
proof -
  have a: "normalise dec rd = Inr rd
      \<and> (loads m = Inr (PDict rd) \<longrightarrow> attempt loads dec (Msg m None) = Inr (Forward rd))"
    if "map_of rd (KStr ''message'') \<noteq> None"
    using that by (auto simp: normalise_def attempt_def)
  have b: "norm_entry dec acc (KStr k, PStr v) = Inr acc"
    by (simp add: norm_entry_def decode_value_def decode_key_def)
  have c: "map_of rd' (KStr k) = Some (PStr v)"
    if n: "normalise dec rd = Inr rd'" and d: "distinct (map fst rd)"
      and i: "(KStr k, PStr v) \<in> set rd"
      and nb: "\<forall>b. KBytes b \<in> fst ` set rd \<longrightarrow> dec b \<noteq> Some k"
  proof -
    have m: "map_of rd (KStr k) = Some (PStr v)"
      using d i by simp
    have h: "\<forall>kv\<in>set rd. (fst kv = KStr k \<longrightarrow> snd kv = PStr v)
            \<and> (\<forall>b. fst kv = KBytes b \<longrightarrow> dec b \<noteq> Some k)"
    proof
      fix kv assume kv: "kv \<in> set rd"
      have "snd kv = PStr v" if "fst kv = KStr k"
        using d i kv that by (metis eq_key_imp_eq_value prod.collapse)
      moreover have "dec b \<noteq> Some k" if "fst kv = KBytes b" for b
        using nb kv that by (metis image_eqI)
      ultimately show "(fst kv = KStr k \<longrightarrow> snd kv = PStr v)
            \<and> (\<forall>b. fst kv = KBytes b \<longrightarrow> dec b \<noteq> Some k)" by blast
    qed
    show ?thesis
    proof (cases "map_of rd (KStr ''message'')")
      case None
      then have "norm_items dec rd rd = Inr rd'" using n by (simp add: normalise_def)
      then show ?thesis using norm_items_keeps [OF _ m h] by simp
    next
      case (Some x)
      then have "rd' = rd" using n by (simp add: normalise_def)
      then show ?thesis using m by simp
    qed
  qed
  show ?thesis using a b c by blast
qed

theorem message_key_gates_the_pass_witness:
  "normalise ascii_decode [(KStr ''message'', PStr ''m''), (KBytes ''name'', PBytes ''salt'')]
     = Inr [(KStr ''message'', PStr ''m''), (KBytes ''name'', PBytes ''salt'')]
   \<and> map_of [(KStr ''msg'', PStr ''m''), (KBytes ''name'', PBytes ''salt''),
              (KStr ''name'', PStr ''salt'')] (KStr ''msg'') = Some (PStr ''m'')"
  using message_key_gates_the_pass [of
      "[(KStr ''message'', PStr ''m''), (KBytes ''name'', PBytes ''salt'')]" ascii_decode
      "\<lambda>m. m" "Inr PNone" "[]" "''k''" "''v''" "[]"]
    message_key_gates_the_pass [of
      "[(KStr ''msg'', PStr ''m''), (KBytes ''name'', PBytes ''salt'')]" ascii_decode
      "\<lambda>m. m" "Inr PNone" "[]" "''msg''" "''m''"
      "[(KStr ''msg'', PStr ''m''), (KBytes ''name'', PBytes ''salt''),
        (KStr ''name'', PStr ''salt'')]"]
  by (simp add: normalise_def norm_entry_def decode_value_def decode_key_def ascii_decode_def)

text \<open>
  Without the proviso the entry does not stay: in \<open>{"a": "x", b"a": b"y"}\<close> the turn
  of \<open>b"a"\<close> assigns \<open>"y"\<close> to the key \<open>"a"\<close>.
\<close>

theorem text_entry_overwritten:
  "normalise ascii_decode [(KStr ''a'', PStr ''x''), (KBytes ''a'', PBytes ''y'')]
     = Inr [(KStr ''a'', PStr ''y''), (KBytes ''a'', PBytes ''y'')]
   \<and> (KStr ''a'', PStr ''x'') \<in> set [(KStr ''a'', PStr ''x''), (KBytes ''a'', PBytes ''y'')]
   \<and> (KStr ''a'', PStr ''x'') \<notin> set [(KStr ''a'', PStr ''y''), (KBytes ''a'', PBytes ''y'')]"
  by (simp add: normalise_def norm_entry_def decode_value_def decode_key_def ascii_decode_def)

end
